theory Spec2Isabelle
  imports Main
begin

section \<open>AtomicLock: a spinlock over one atomic boolean\<close>

text \<open>
  The class of \<^verbatim>\<open>AtomicLock.h\<close> has a single field, \<^verbatim>\<open>std::atomic<bool> ThisLock\<close>,
  and the two constants \<^verbatim>\<open>UNLOCKED = false\<close>, \<^verbatim>\<open>LOCKED = true\<close>.
\<close>

definition UNLOCKED :: bool where
  "UNLOCKED = False"

definition LOCKED :: bool where
  "LOCKED = True"

record AtomicLock =
  ThisLock :: bool

subsection \<open>The operations of \<^verbatim>\<open>std::atomic<bool>\<close> the class uses\<close>

text \<open>
  Each operation is one indivisible access to the cell. The memory orders passed in the
  source (acquire, release, relaxed) constrain the visibility of other memory and have no
  counterpart here: the model has no memory besides the cell.
  \<^verbatim>\<open>compare_exchange_strong(expected, desired)\<close> returns whether it wrote, the value left in
  \<^verbatim>\<open>expected\<close> (the value read, on failure) and the cell.
\<close>

definition load :: "AtomicLock \<Rightarrow> bool" where
  "load l = ThisLock l"

definition store :: "bool \<Rightarrow> AtomicLock \<Rightarrow> AtomicLock" where
  "store v l = l\<lparr>ThisLock := v\<rparr>"

definition compare_exchange_strong ::
    "bool \<Rightarrow> bool \<Rightarrow> AtomicLock \<Rightarrow> bool \<times> bool \<times> AtomicLock" where
  "compare_exchange_strong expected desired l =
     (if ThisLock l = expected then (True, expected, l\<lparr>ThisLock := desired\<rparr>)
      else (False, ThisLock l, l))"

text \<open>\<^verbatim>\<open>std::this_thread::yield()\<close> gives the processor away and touches nothing.\<close>

definition yield :: "AtomicLock \<Rightarrow> AtomicLock" where
  "yield l = l"

subsection \<open>The member functions, called with no other thread running\<close>

text \<open>\<^verbatim>\<open>AtomicLock() : ThisLock(UNLOCKED) {}\<close>\<close>

definition AtomicLock_ctor :: AtomicLock where
  "AtomicLock_ctor = \<lparr>ThisLock = UNLOCKED\<rparr>"

text \<open>\<^verbatim>\<open>ThisLock.store(UNLOCKED, memory_order_release);\<close>\<close>

definition unlock :: "AtomicLock \<Rightarrow> AtomicLock" where
  "unlock l = store UNLOCKED l"

text \<open>\<^verbatim>\<open>~AtomicLock() { unlock(); }\<close>\<close>

definition AtomicLock_dtor :: "AtomicLock \<Rightarrow> AtomicLock" where
  "AtomicLock_dtor l = unlock l"

text \<open>
  \<^verbatim>\<open>return (!ThisLock.load(acquire) && ThisLock.compare_exchange_strong(_Unlocked, LOCKED, ...));\<close>
  The conjunction short-circuits: the exchange is attempted only when the load read
  \<^verbatim>\<open>UNLOCKED\<close>. The result is the returned boolean and the cell.
\<close>

definition try_lock :: "AtomicLock \<Rightarrow> bool \<times> AtomicLock" where
  "try_lock l =
     (let Unlocked = UNLOCKED in
      if \<not> load l then
        (case compare_exchange_strong Unlocked LOCKED l of (ok, _, l') \<Rightarrow> (ok, l'))
      else (False, l))"

text \<open>
  \<^verbatim>\<open>while (ThisLock.load(acquire)) { std::this_thread::yield(); }\<close>
  The loop has no bound, so the function is partial: \<open>None\<close> is "never returns".
\<close>

partial_function (option) wait :: "AtomicLock \<Rightarrow> AtomicLock option" where
  "wait l = (if load l then wait (yield l) else Some l)"

text \<open>
  \<^verbatim>\<open>do { if (!load) { _Unlocked = UNLOCKED; if (CAS(_Unlocked, LOCKED)) return; } yield(); } while (true);\<close>
\<close>

partial_function (option) lock :: "AtomicLock \<Rightarrow> AtomicLock option" where
  "lock l =
     (if \<not> load l then
        (let r = compare_exchange_strong UNLOCKED LOCKED l in
         if fst r then Some (snd (snd r)) else lock (yield (snd (snd r))))
      else lock (yield l))"

subsection \<open>The member functions as threads see them: one atomic access per step\<close>

text \<open>
  Between two accesses of one thread any other thread may run. A call is therefore cut at
  its accesses to \<open>ThisLock\<close>: a thread is at a program point of the member function it
  executes, and a step performs the access of that point. The points follow the source
  text of \<^verbatim>\<open>try_lock\<close>, \<^verbatim>\<open>wait\<close>, \<^verbatim>\<open>lock\<close> and \<^verbatim>\<open>unlock\<close>.
\<close>

datatype member = Call_try_lock | Call_wait | Call_lock | Call_unlock

datatype pc =
    Idle
  | TryLock_Load | TryLock_CAS | TryLock_Return bool
  | Wait_Load | Wait_Yield | Wait_Return
  | Lock_Load | Lock_CAS | Lock_Yield | Lock_Return
  | Unlock_Store | Unlock_Return

text \<open>
  What a step did, for the record of a run. \<open>Ev_store old\<close> notes the value the store
  overwrote; the store itself does not read it.
\<close>

datatype event =
    Ev_call member
  | Ev_load bool
  | Ev_cas bool
  | Ev_store bool
  | Ev_yield
  | Ev_none

fun entry :: "member \<Rightarrow> pc" where
  "entry Call_try_lock = TryLock_Load"
| "entry Call_wait = Wait_Load"
| "entry Call_lock = Lock_Load"
| "entry Call_unlock = Unlock_Store"

fun returned :: "pc \<Rightarrow> bool" where
  "returned Idle = True"
| "returned (TryLock_Return b) = True"
| "returned Wait_Return = True"
| "returned Lock_Return = True"
| "returned Unlock_Return = True"
| "returned _ = False"

fun step :: "pc \<Rightarrow> AtomicLock \<Rightarrow> event \<times> pc \<times> AtomicLock" where
  "step TryLock_Load l =
     (Ev_load (load l), (if \<not> load l then TryLock_CAS else TryLock_Return False), l)"
| "step TryLock_CAS l =
     (case compare_exchange_strong UNLOCKED LOCKED l of
        (ok, _, l') \<Rightarrow> (Ev_cas ok, TryLock_Return ok, l'))"
| "step Wait_Load l =
     (Ev_load (load l), (if load l then Wait_Yield else Wait_Return), l)"
| "step Wait_Yield l = (Ev_yield, Wait_Load, yield l)"
| "step Lock_Load l =
     (Ev_load (load l), (if \<not> load l then Lock_CAS else Lock_Yield), l)"
| "step Lock_CAS l =
     (case compare_exchange_strong UNLOCKED LOCKED l of
        (ok, _, l') \<Rightarrow> (Ev_cas ok, (if ok then Lock_Return else Lock_Yield), l'))"
| "step Lock_Yield l = (Ev_yield, Lock_Load, yield l)"
| "step Unlock_Store l = (Ev_store (ThisLock l), Unlock_Return, store UNLOCKED l)"
| "step Idle l = (Ev_none, Idle, l)"
| "step (TryLock_Return b) l = (Ev_none, TryLock_Return b, l)"
| "step Wait_Return l = (Ev_none, Wait_Return, l)"
| "step Lock_Return l = (Ev_none, Lock_Return, l)"
| "step Unlock_Return l = (Ev_none, Unlock_Return, l)"

text \<open>
  A thread is a program point and the calls it will still make. A thread whose call has
  returned makes its next call, if it has one, and otherwise does nothing.
\<close>

type_synonym thread = "pc \<times> member list"

fun thread_step :: "thread \<Rightarrow> AtomicLock \<Rightarrow> event \<times> thread \<times> AtomicLock" where
  "thread_step (p, ms) l =
     (if returned p then
        (case ms of
           [] \<Rightarrow> (Ev_none, (p, []), l)
         | m # ms' \<Rightarrow> (Ev_call m, (entry m, ms'), l))
      else (case step p l of (e, p', l') \<Rightarrow> (e, (p', ms), l')))"

text \<open>
  The system: the lock and the threads, named by numbers. A schedule is the list of the
  threads that step, in order; \<open>exec\<close> gives the configuration a schedule leads to and
  \<open>trace\<close> what each step did and who did it.
\<close>

record config =
  cell :: AtomicLock
  threads :: "nat \<Rightarrow> thread"

definition sys_step :: "nat \<Rightarrow> config \<Rightarrow> (nat \<times> event) \<times> config" where
  "sys_step t c =
     (case thread_step (threads c t) (cell c) of
        (e, th', l') \<Rightarrow> ((t, e), \<lparr>cell = l', threads = (threads c)(t := th')\<rparr>))"

fun exec :: "nat list \<Rightarrow> config \<Rightarrow> config" where
  "exec [] c = c"
| "exec (t # ts) c = exec ts (snd (sys_step t c))"

fun trace :: "nat list \<Rightarrow> config \<Rightarrow> (nat \<times> event) list" where
  "trace [] c = []"
| "trace (t # ts) c = fst (sys_step t c) # trace ts (snd (sys_step t c))"

text \<open>
  The two transitions of the lock: an acquire is an exchange that wrote \<open>LOCKED\<close> over
  \<open>UNLOCKED\<close>, a release a store that wrote \<open>UNLOCKED\<close> over \<open>LOCKED\<close>.
\<close>

definition is_acquire :: "nat \<times> event \<Rightarrow> bool" where
  "is_acquire x = (snd x = Ev_cas True)"

definition is_release :: "nat \<times> event \<Rightarrow> bool" where
  "is_release x = (snd x = Ev_store LOCKED)"

definition acquires :: "(nat \<times> event) list \<Rightarrow> nat" where
  "acquires tr = length (filter is_acquire tr)"

definition releases :: "(nat \<times> event) list \<Rightarrow> nat" where
  "releases tr = length (filter is_release tr)"

text \<open>Starting configurations: a fresh lock, and every thread idle with its calls to make.\<close>

definition init_config :: "(nat \<Rightarrow> member list) \<Rightarrow> config" where
  "init_config progs = \<lparr>cell = AtomicLock_ctor, threads = (\<lambda>t. (Idle, progs t))\<rparr>"

definition race :: "nat \<Rightarrow> nat \<Rightarrow> config" where
  "race t1 t2 = init_config ((\<lambda>_. [])(t1 := [Call_try_lock], t2 := [Call_try_lock]))"

definition pc_of :: "config \<Rightarrow> nat \<Rightarrow> pc" where
  "pc_of c t = fst (threads c t)"

text \<open>A single thread, number 0, with its calls to make.\<close>

definition solo :: "member list \<Rightarrow> config" where
  "solo ms = init_config ((\<lambda>_. [])(0 := ms))"

text \<open>What a thread's \<open>try_lock\<close> returned, once it has.\<close>

definition try_lock_result :: "config \<Rightarrow> nat \<Rightarrow> bool option" where
  "try_lock_result c t = (case pc_of c t of TryLock_Return b \<Rightarrow> Some b | _ \<Rightarrow> None)"

text \<open>The round trip: \<open>n\<close> times \<open>lock\<close> then \<open>unlock\<close>, by one caller.\<close>

fun lock_unlock :: "nat \<Rightarrow> AtomicLock \<Rightarrow> AtomicLock option" where
  "lock_unlock 0 l = Some l"
| "lock_unlock (Suc n) l =
     (case lock l of None \<Rightarrow> None | Some l' \<Rightarrow> lock_unlock n (unlock l'))"

subsection \<open>Auxiliary notions for the race of two \<open>try_lock\<close> calls\<close>

text \<open>
  The states a thread of \<open>race\<close> goes through, how far it has come, and the relation
  between the two racing threads and the cell that every step keeps.
\<close>

definition race_thread :: "thread \<Rightarrow> bool" where
  "race_thread th =
     (th = (Idle, [Call_try_lock]) \<or> th = (TryLock_Load, []) \<or> th = (TryLock_CAS, [])
      \<or> th = (TryLock_Return True, []) \<or> th = (TryLock_Return False, []))"

fun race_rank :: "thread \<Rightarrow> nat" where
  "race_rank (TryLock_Load, ms) = 1"
| "race_rank (TryLock_CAS, ms) = 2"
| "race_rank (TryLock_Return b, ms) = 3"
| "race_rank (p, ms) = 0"

definition race_ok :: "thread \<Rightarrow> thread \<Rightarrow> bool \<Rightarrow> bool" where
  "race_ok a b locked =
     (race_thread a \<and> race_thread b
      \<and> locked = (fst a = TryLock_Return True \<or> fst b = TryLock_Return True)
      \<and> \<not> (fst a = TryLock_Return True \<and> fst b = TryLock_Return True)
      \<and> (fst a = TryLock_Return False \<longrightarrow> locked)
      \<and> (fst b = TryLock_Return False \<longrightarrow> locked))"

definition race_inv :: "nat \<Rightarrow> nat \<Rightarrow> config \<Rightarrow> bool" where
  "race_inv t1 t2 c =
     ((\<forall>t. t \<noteq> t1 \<and> t \<noteq> t2 \<longrightarrow> threads c t = (Idle, []))
      \<and> race_ok (threads c t1) (threads c t2) (ThisLock (cell c)))"

section \<open>Properties of the sequential calls\<close>

lemma try_lock_unlocked: "ThisLock l = UNLOCKED \<Longrightarrow> try_lock l = (True, l\<lparr>ThisLock := LOCKED\<rparr>)"
  by (simp add: try_lock_def load_def compare_exchange_strong_def UNLOCKED_def)

lemma try_lock_locked: "ThisLock l = LOCKED \<Longrightarrow> try_lock l = (False, l)"
  by (simp add: try_lock_def load_def LOCKED_def)

lemma lock_unlocked: "ThisLock l = UNLOCKED \<Longrightarrow> lock l = Some (l\<lparr>ThisLock := LOCKED\<rparr>)"
  by (subst lock.simps) (simp add: load_def compare_exchange_strong_def UNLOCKED_def)

lemma lock_returns_from_unlocked:
  assumes "lock l = Some l'"
  shows "ThisLock l = UNLOCKED \<and> l' = l\<lparr>ThisLock := LOCKED\<rparr>"
  using assms
proof (induction l l' rule: lock.raw_induct [rotated 1, consumes 1, case_names step])
  case (step lock l l')
  show ?case
  proof (cases "ThisLock l")
    case True
    with step show ?thesis by (simp add: load_def yield_def)
  next
    case False
    with step(2) show ?thesis
      by (auto simp add: load_def compare_exchange_strong_def UNLOCKED_def)
  qed
qed

lemma lock_locked: "ThisLock l = LOCKED \<Longrightarrow> lock l = None"
proof (cases "lock l")
  case (Some l')
  assume "ThisLock l = LOCKED"
  with lock_returns_from_unlocked [OF Some] show ?thesis
    by (simp add: LOCKED_def UNLOCKED_def)
qed simp

lemma wait_unlocked: "ThisLock l = UNLOCKED \<Longrightarrow> wait l = Some l"
  by (subst wait.simps) (simp add: load_def UNLOCKED_def)

lemma wait_returns_same: "wait l = Some l' \<Longrightarrow> l' = l \<and> ThisLock l = UNLOCKED"
proof (induction l l' rule: wait.raw_induct [rotated 1, consumes 1, case_names step])
  case (step wait l l')
  then show ?case
    by (cases "ThisLock l") (auto simp: load_def yield_def UNLOCKED_def)
qed

lemma wait_locked: "ThisLock l = LOCKED \<Longrightarrow> wait l = None"
proof (cases "wait l")
  case (Some l')
  assume "ThisLock l = LOCKED"
  with wait_returns_same [OF Some] show ?thesis
    by (simp add: LOCKED_def UNLOCKED_def)
qed simp

section \<open>Runs of the system\<close>

lemma trace_append: "trace (xs @ ys) c = trace xs c @ trace ys (exec xs c)"
  by (induction xs arbitrary: c) auto

lemma exec_append: "exec (xs @ ys) c = exec ys (exec xs c)"
  by (induction xs arbitrary: c) auto

lemma length_trace: "length (trace xs c) = length xs"
  by (induction xs arbitrary: c) auto

lemma step_acquire:
  "step p l = (Ev_cas True, p', l') \<Longrightarrow> ThisLock l = UNLOCKED \<and> ThisLock l' = LOCKED"
  by (cases p) (auto simp: compare_exchange_strong_def LOCKED_def UNLOCKED_def split: if_splits)

lemma step_cell:
  "step p l = (e, p', l') \<Longrightarrow> ThisLock l' = ThisLock l \<or> e = Ev_cas True \<or> e = Ev_store (ThisLock l)"
  by (cases p) (auto simp: compare_exchange_strong_def store_def yield_def split: if_splits)

lemma step_store: "step p l = (Ev_store b, p', l') \<Longrightarrow> b = ThisLock l"
  by (cases p) (auto simp: compare_exchange_strong_def store_def yield_def split: if_splits)

lemma sys_step_acquire:
  assumes "is_acquire (fst (sys_step t c))"
  shows "ThisLock (cell c) = UNLOCKED \<and> ThisLock (cell (snd (sys_step t c))) = LOCKED"
proof -
  obtain p ms where th: "threads c t = (p, ms)" by (cases "threads c t")
  show ?thesis
  proof (cases "returned p")
    case True
    with assms th show ?thesis
      by (auto simp: sys_step_def is_acquire_def split: list.splits)
  next
    case False
    obtain e p' l' where st: "step p (cell c) = (e, p', l')" by (cases "step p (cell c)")
    with assms th False have "e = Ev_cas True"
      by (simp add: sys_step_def is_acquire_def)
    with st step_acquire have "ThisLock (cell c) = UNLOCKED \<and> ThisLock l' = LOCKED" by blast
    with th False st show ?thesis by (simp add: sys_step_def)
  qed
qed

lemma sys_step_locked_stays:
  assumes "ThisLock (cell c) = LOCKED" "\<not> is_release (fst (sys_step t c))"
  shows "ThisLock (cell (snd (sys_step t c))) = LOCKED"
proof -
  obtain p ms where th: "threads c t = (p, ms)" by (cases "threads c t")
  show ?thesis
  proof (cases "returned p")
    case True
    with assms th show ?thesis
      by (auto simp: sys_step_def split: list.splits)
  next
    case False
    obtain e p' l' where st: "step p (cell c) = (e, p', l')" by (cases "step p (cell c)")
    from assms(2) th False st have ne: "e \<noteq> Ev_store LOCKED"
      by (simp add: sys_step_def is_release_def)
    from step_cell [OF st] step_acquire [of p "cell c" p' l'] st assms(1) ne
    have "ThisLock l' = LOCKED" by (auto simp: LOCKED_def UNLOCKED_def)
    with th False st show ?thesis by (simp add: sys_step_def)
  qed
qed

lemma locked_no_acquire:
  "ThisLock (cell c) = LOCKED \<Longrightarrow> releases (trace ts c) = 0 \<Longrightarrow> acquires (trace ts c) = 0"
proof (induction ts arbitrary: c)
  case Nil
  then show ?case by (simp add: acquires_def)
next
  case (Cons t ts)
  from Cons.prems(2) have nr: "\<not> is_release (fst (sys_step t c))"
    and rest: "releases (trace ts (snd (sys_step t c))) = 0"
    by (auto simp: releases_def split: if_splits)
  from Cons.prems(1) sys_step_acquire [of t c] have na: "\<not> is_acquire (fst (sys_step t c))"
    by (auto simp: LOCKED_def UNLOCKED_def)
  from sys_step_locked_stays [OF Cons.prems(1) nr] Cons.IH rest
  have "acquires (trace ts (snd (sys_step t c))) = 0" by blast
  with na show ?case by (simp add: acquires_def)
qed

lemma at_most_one_acquire:
  "releases (trace ts c) = 0 \<Longrightarrow> acquires (trace ts c) \<le> 1"
proof (induction ts arbitrary: c)
  case Nil
  then show ?case by (simp add: acquires_def)
next
  case (Cons t ts)
  from Cons.prems have rest: "releases (trace ts (snd (sys_step t c))) = 0"
    by (auto simp: releases_def split: if_splits)
  show ?case
  proof (cases "is_acquire (fst (sys_step t c))")
    case True
    with sys_step_acquire have "ThisLock (cell (snd (sys_step t c))) = LOCKED" by blast
    from locked_no_acquire [OF this rest] True show ?thesis by (simp add: acquires_def)
  next
    case False
    with Cons.IH [OF rest] show ?thesis by (simp add: acquires_def)
  qed
qed

lemma trace_segment:
  assumes "trace ts c = pre @ seg @ post"
  shows "\<exists>ts' c'. seg = trace ts' c'"
proof -
  let ?a = "take (length pre) ts" and ?r = "drop (length pre) ts"
  let ?b = "take (length seg) ?r"
  have "?a @ ?b @ drop (length seg) ?r = ts" by (simp only: append_take_drop_id)
  then have "trace ts c = trace (?a @ ?b @ drop (length seg) ?r) c" by (rule arg_cong [where f = "\<lambda>x. trace x c", symmetric])
  also have "\<dots> = trace ?a c @ trace ?b (exec ?a c) @ trace (drop (length seg) ?r) (exec ?b (exec ?a c))"
    by (simp only: trace_append exec_append)
  finally have eq: "pre @ seg @ post = trace ?a c @ trace ?b (exec ?a c) @ trace (drop (length seg) ?r) (exec ?b (exec ?a c))"
    using assms by simp
  have len: "length ts = length pre + length seg + length post"
    using assms length_trace [of ts c] by (metis length_append add.assoc)
  have "length (trace ?a c) = length pre" using len by (simp add: length_trace)
  with eq have eq2: "seg @ post = trace ?b (exec ?a c) @ trace (drop (length seg) ?r) (exec ?b (exec ?a c))"
    by simp
  have "length (trace ?b (exec ?a c)) = length seg" using len by (simp add: length_trace)
  with eq2 have "seg = trace ?b (exec ?a c)" by simp
  then show ?thesis by blast
qed

section \<open>Two racing calls of \<open>try_lock\<close>\<close>

lemma race_inv_init: "t1 \<noteq> t2 \<Longrightarrow> race_inv t1 t2 (race t1 t2)"
  by (simp add: race_inv_def race_ok_def race_def init_config_def race_thread_def
      AtomicLock_ctor_def UNLOCKED_def)

lemma thread_step_race:
  "thread_step (Idle, [Call_try_lock]) l = (Ev_call Call_try_lock, (TryLock_Load, []), l)"
  "thread_step (TryLock_Load, []) l =
     (Ev_load (ThisLock l), ((if ThisLock l then TryLock_Return False else TryLock_CAS), []), l)"
  "thread_step (TryLock_CAS, []) l =
     (Ev_cas (\<not> ThisLock l), (TryLock_Return (\<not> ThisLock l), []), l\<lparr>ThisLock := True\<rparr>)"
  "thread_step (TryLock_Return b, []) l = (Ev_none, (TryLock_Return b, []), l)"
  "thread_step (Idle, []) l = (Ev_none, (Idle, []), l)"
  by (auto simp: load_def compare_exchange_strong_def UNLOCKED_def LOCKED_def)

lemma race_ok_sym: "race_ok a b locked = race_ok b a locked"
  unfolding race_ok_def by blast

lemma race_thread_simps:
  "race_thread (Idle, [Call_try_lock])" "race_thread (TryLock_Load, [])"
  "race_thread (TryLock_CAS, [])" "race_thread (TryLock_Return r, [])"
  by (cases r; simp add: race_thread_def)+

lemma race_ok_step:
  assumes "race_ok a b (ThisLock l)"
  shows "race_ok (fst (snd (thread_step a l))) b (ThisLock (snd (snd (thread_step a l))))"
proof -
  from assms have "race_thread a" by (simp add: race_ok_def)
  then consider "a = (Idle, [Call_try_lock])" | "a = (TryLock_Load, [])"
    | "a = (TryLock_CAS, [])" | "a = (TryLock_Return True, [])"
    | "a = (TryLock_Return False, [])"
    unfolding race_thread_def by blast
  then show ?thesis
  proof cases
    case 1
    with assms show ?thesis
      by (simp only: thread_step_race) (auto simp: race_ok_def race_thread_simps)
  next
    case 2
    with assms show ?thesis
      by (simp only: thread_step_race) (auto simp: race_ok_def race_thread_simps)
  next
    case 3
    with assms show ?thesis
      by (simp only: thread_step_race) (auto simp: race_ok_def race_thread_simps)
  next
    case 4
    with assms show ?thesis
      by (simp only: thread_step_race) simp
  next
    case 5
    with assms show ?thesis
      by (simp only: thread_step_race) simp
  qed
qed

lemma sys_step_snd:
  "snd (sys_step t c) =
     \<lparr>cell = snd (snd (thread_step (threads c t) (cell c))),
      threads = (threads c)(t := fst (snd (thread_step (threads c t) (cell c))))\<rparr>"
  by (simp add: sys_step_def split: prod.splits)

lemma race_inv_step:
  assumes "t1 \<noteq> t2" "race_inv t1 t2 c"
  shows "race_inv t1 t2 (snd (sys_step t c))"
proof -
  from assms(2) have idle: "\<And>u. u \<noteq> t1 \<Longrightarrow> u \<noteq> t2 \<Longrightarrow> threads c u = (Idle, [])"
    and ok: "race_ok (threads c t1) (threads c t2) (ThisLock (cell c))"
    by (simp_all add: race_inv_def)
  consider "t = t1" | "t = t2" | "t \<noteq> t1" "t \<noteq> t2" by blast
  then show ?thesis
  proof cases
    case 1
    from race_ok_step [OF ok] assms(1) idle have "race_inv t1 t2 (snd (sys_step t1 c))"
      by (simp add: sys_step_snd race_inv_def)
    with 1 show ?thesis by simp
  next
    case 2
    from ok have "race_ok (threads c t2) (threads c t1) (ThisLock (cell c))"
      by (simp add: race_ok_sym)
    from race_ok_step [OF this] assms(1) idle have "race_inv t1 t2 (snd (sys_step t2 c))"
      by (simp add: sys_step_snd race_inv_def race_ok_sym)
    with 2 show ?thesis by simp
  next
    case 3
    then have "threads c t = (Idle, [])" by (rule idle)
    with 3 ok idle show ?thesis
      by (simp add: sys_step_snd race_inv_def thread_step_race del: thread_step.simps)
  qed
qed

lemma race_inv_exec:
  "t1 \<noteq> t2 \<Longrightarrow> race_inv t1 t2 c \<Longrightarrow> race_inv t1 t2 (exec ts c)"
  by (induction ts arbitrary: c) (simp_all add: race_inv_step)

lemma race_exactly_one:
  assumes "race_inv t1 t2 c"
    "try_lock_result c t1 = Some b1" "try_lock_result c t2 = Some b2"
  shows "b1 \<noteq> b2"
proof -
  from assms(2) have p1: "fst (threads c t1) = TryLock_Return b1"
    by (simp add: try_lock_result_def pc_of_def split: pc.splits)
  from assms(3) have p2: "fst (threads c t2) = TryLock_Return b2"
    by (simp add: try_lock_result_def pc_of_def split: pc.splits)
  from assms(1) have "race_ok (threads c t1) (threads c t2) (ThisLock (cell c))"
    by (simp add: race_inv_def)
  with p1 p2 show ?thesis
    by (cases b1; cases b2) (simp_all add: race_ok_def)
qed

lemma sys_step_other: "u \<noteq> t \<Longrightarrow> threads (snd (sys_step t c)) u = threads c u"
  by (simp add: sys_step_snd)

lemma exec_other: "t \<notin> set ts \<Longrightarrow> threads (exec ts c) t = threads c t"
  by (induction ts arbitrary: c) (simp_all add: sys_step_other)

lemma race_thread_step:
  assumes "race_thread a"
  shows "race_thread (fst (snd (thread_step a l)))
     \<and> min 3 (Suc (race_rank a)) \<le> race_rank (fst (snd (thread_step a l)))"
proof -
  from assms consider "a = (Idle, [Call_try_lock])" | "a = (TryLock_Load, [])"
    | "a = (TryLock_CAS, [])" | r where "a = (TryLock_Return r, [])"
    unfolding race_thread_def by blast
  then show ?thesis
    by cases (simp_all only: thread_step_race, simp_all add: race_thread_simps)
qed

lemma race_progress:
  "race_thread (threads c t) \<Longrightarrow>
     race_thread (threads (exec ts c) t)
     \<and> min 3 (race_rank (threads c t) + count_list ts t) \<le> race_rank (threads (exec ts c) t)"
proof (induction ts arbitrary: c)
  case Nil
  then show ?case by simp
next
  case (Cons u ts)
  show ?case
  proof (cases "u = t")
    case True
    let ?c = "snd (sys_step t c)"
    have th: "threads ?c t = fst (snd (thread_step (threads c t) (cell c)))"
      by (simp add: sys_step_snd)
    from race_thread_step [OF Cons.prems, of "cell c"] th
    have rt: "race_thread (threads ?c t)"
      and rk: "min 3 (Suc (race_rank (threads c t))) \<le> race_rank (threads ?c t)" by simp_all
    from Cons.IH [OF rt] rk True show ?thesis by auto
  next
    case False
    then have "threads (snd (sys_step u c)) t = threads c t" by (simp add: sys_step_other)
    with Cons.IH [of "snd (sys_step u c)"] Cons.prems False show ?thesis by simp
  qed
qed

lemma race_finished:
  assumes "t1 \<noteq> t2" "3 \<le> count_list ts t1"
  shows "\<exists>b. try_lock_result (exec ts (race t1 t2)) t1 = Some b"
    and "\<exists>b. try_lock_result (exec ts (race t2 t1)) t1 = Some b"
proof -
  have a: "race_thread (threads (race t1 t2) t1)" and b: "race_thread (threads (race t2 t1) t1)"
    by (simp_all add: race_def init_config_def race_thread_simps)
  have fin: "\<exists>b. try_lock_result c t1 = Some b"
    if "race_thread (threads c t1)" "3 \<le> race_rank (threads c t1)" for c
    using that unfolding race_thread_def try_lock_result_def pc_of_def by auto
  from race_progress [OF a, of ts] assms(2) show "\<exists>b. try_lock_result (exec ts (race t1 t2)) t1 = Some b"
    by (intro fin) simp_all
  from race_progress [OF b, of ts] assms(2) show "\<exists>b. try_lock_result (exec ts (race t2 t1)) t1 = Some b"
    by (intro fin) simp_all
qed

lemma race_commute: "t1 \<noteq> t2 \<Longrightarrow> race t1 t2 = race t2 t1"
  by (auto simp: race_def init_config_def fun_upd_twist)

lemma lock_unlock_ctor: "lock_unlock n AtomicLock_ctor = Some AtomicLock_ctor"
proof (induction n)
  case 0
  show ?case by simp
next
  case (Suc n)
  have "lock AtomicLock_ctor = Some (AtomicLock_ctor\<lparr>ThisLock := LOCKED\<rparr>)"
    by (rule lock_unlocked) (simp add: AtomicLock_ctor_def)
  moreover have "unlock (AtomicLock_ctor\<lparr>ThisLock := LOCKED\<rparr>) = AtomicLock_ctor"
    by (simp add: unlock_def store_def AtomicLock_ctor_def)
  ultimately show ?case using Suc by simp
qed

section \<open>Steps of \<open>lock\<close>, \<open>wait\<close> and \<open>try_lock\<close> among other threads\<close>

lemma step_into_Lock_Return:
  assumes "step p l = (e, Lock_Return, l')" "p \<noteq> Lock_Return"
  shows "p = Lock_CAS \<and> e = Ev_cas True \<and> ThisLock l = UNLOCKED \<and> ThisLock l' = LOCKED"
  using assms
  by (cases p) (auto simp: compare_exchange_strong_def UNLOCKED_def LOCKED_def split: if_splits)

lemma sys_step_into_Lock_Return:
  assumes "pc_of (snd (sys_step t c)) t = Lock_Return" "pc_of c t \<noteq> Lock_Return"
  shows "pc_of c t = Lock_CAS \<and> fst (sys_step t c) = (t, Ev_cas True)
     \<and> ThisLock (cell c) = UNLOCKED \<and> ThisLock (cell (snd (sys_step t c))) = LOCKED"
proof -
  obtain p ms where th: "threads c t = (p, ms)" by (cases "threads c t")
  obtain e p' l' where st: "step p (cell c) = (e, p', l')" by (cases "step p (cell c)")
  show ?thesis
  proof (cases "returned p")
    case True
    with assms th show ?thesis
      by (cases ms; cases "hd ms") (auto simp: sys_step_def pc_of_def)
  next
    case False
    with assms th st have "p' = Lock_Return" "p \<noteq> Lock_Return"
      by (simp_all add: sys_step_def pc_of_def)
    with st step_into_Lock_Return [of p "cell c" e l'] th False show ?thesis
      by (simp add: sys_step_def pc_of_def)
  qed
qed

lemma wait_sys_step:
  assumes "pc_of c t = Wait_Load \<or> pc_of c t = Wait_Yield"
  shows "cell (snd (sys_step t c)) = cell c
     \<and> (snd (fst (sys_step t c)) = Ev_load (ThisLock (cell c)) \<or> snd (fst (sys_step t c)) = Ev_yield)
     \<and> (pc_of (snd (sys_step t c)) t = Wait_Load \<or> pc_of (snd (sys_step t c)) t = Wait_Yield
        \<or> pc_of (snd (sys_step t c)) t = Wait_Return)"
proof -
  obtain p ms where th: "threads c t = (p, ms)" by (cases "threads c t")
  with assms have "p = Wait_Load \<or> p = Wait_Yield" by (simp add: pc_of_def)
  with th show ?thesis
    by (auto simp: sys_step_def pc_of_def load_def yield_def split: if_splits)
qed

lemma try_lock_two_steps:
  assumes "pc_of c t = TryLock_Load" "t \<notin> set ts"
  shows "(\<exists>b. pc_of (snd (sys_step t c)) t = TryLock_Return b)
     \<or> (\<exists>b. pc_of (exec (t # ts @ [t]) c) t = TryLock_Return b)"
proof -
  obtain ms where th: "threads c t = (TryLock_Load, ms)"
    using assms(1) by (cases "threads c t") (simp add: pc_of_def)
  let ?c1 = "snd (sys_step t c)"
  show ?thesis
  proof (cases "ThisLock (cell c)")
    case True
    with th have "pc_of ?c1 t = TryLock_Return False"
      by (simp add: sys_step_def pc_of_def load_def)
    then show ?thesis by blast
  next
    case False
    with th have "threads ?c1 t = (TryLock_CAS, ms)"
      by (simp add: sys_step_def load_def)
    with exec_other [OF assms(2), of ?c1] have "threads (exec ts ?c1) t = (TryLock_CAS, ms)"
      by simp
    then have "\<exists>b. pc_of (snd (sys_step t c2)) t = TryLock_Return b"
      if "c2 = exec ts ?c1" for c2
      using that by (auto simp: sys_step_snd pc_of_def compare_exchange_strong_def)
    then show ?thesis by (simp add: exec_append)
  qed
qed

lemmas eval_simps = solo_def race_def init_config_def sys_step_def AtomicLock_ctor_def load_def
  store_def yield_def compare_exchange_strong_def UNLOCKED_def LOCKED_def pc_of_def

section \<open>Construction and release\<close>

text \<open>
  C9: construction produces a lock in the FREE (\<open>UNLOCKED\<close>) state: the state of every
  newly constructed lock is \<open>UNLOCKED\<close> before any operation is applied, also in the
  starting configuration of every system of threads.
\<close>

theorem ctor_unlocked:
  "ThisLock AtomicLock_ctor = UNLOCKED \<and> load AtomicLock_ctor = UNLOCKED
   \<and> ThisLock (cell (init_config progs)) = UNLOCKED"
  by (simp add: AtomicLock_ctor_def load_def init_config_def)

text \<open>
  C5: release (\<open>unlock\<close>) stores \<open>UNLOCKED\<close> unconditionally: whatever the state before,
  held or free, the state after is \<open>UNLOCKED\<close>, and the destructor does the same. Nothing
  checks that the caller holds the lock: as a thread's step \<open>unlock\<close> is the single store,
  enabled in every state, and in the run below thread 1 releases the lock that thread 0
  acquired and then acquires it too, so that both calls of \<open>lock\<close> have returned with no
  release by thread 0.
\<close>

theorem unlock_unconditional:
  "ThisLock (unlock l) = UNLOCKED
   \<and> unlock l = l\<lparr>ThisLock := UNLOCKED\<rparr>
   \<and> step Unlock_Store l = (Ev_store (ThisLock l), Unlock_Return, unlock l)
   \<and> AtomicLock_dtor l = unlock l
   \<and> ThisLock (AtomicLock_dtor l) = UNLOCKED
   \<and> pc_of (exec [0, 0, 0, 1, 1, 1, 1, 1]
        (init_config ((\<lambda>_. [])(0 := [Call_lock], 1 := [Call_unlock, Call_lock])))) 0 = Lock_Return
   \<and> pc_of (exec [0, 0, 0, 1, 1, 1, 1, 1]
        (init_config ((\<lambda>_. [])(0 := [Call_lock], 1 := [Call_unlock, Call_lock])))) 1 = Lock_Return"
proof -
  have a: "ThisLock (unlock l) = UNLOCKED
   \<and> unlock l = l\<lparr>ThisLock := UNLOCKED\<rparr>
   \<and> step Unlock_Store l = (Ev_store (ThisLock l), Unlock_Return, unlock l)
   \<and> AtomicLock_dtor l = unlock l
   \<and> ThisLock (AtomicLock_dtor l) = UNLOCKED"
    by (simp add: unlock_def store_def AtomicLock_dtor_def)
  have b: "pc_of (exec [0, 0, 0, 1, 1, 1, 1, 1]
        (init_config ((\<lambda>_. [])(0 := [Call_lock], 1 := [Call_unlock, Call_lock])))) 0 = Lock_Return
   \<and> pc_of (exec [0, 0, 0, 1, 1, 1, 1, 1]
        (init_config ((\<lambda>_. [])(0 := [Call_lock], 1 := [Call_unlock, Call_lock])))) 1 = Lock_Return"
    by (simp add: eval_simps)
  from a b show ?thesis by blast
qed

theorem unlock_unconditional_witness:
  "unlock \<lparr>ThisLock = LOCKED\<rparr> = \<lparr>ThisLock = UNLOCKED\<rparr>
   \<and> unlock \<lparr>ThisLock = UNLOCKED\<rparr> = \<lparr>ThisLock = UNLOCKED\<rparr>
   \<and> AtomicLock_dtor \<lparr>ThisLock = LOCKED\<rparr> = \<lparr>ThisLock = UNLOCKED\<rparr>"
  using unlock_unconditional [of "\<lparr>ThisLock = LOCKED\<rparr>"]
    unlock_unconditional [of "\<lparr>ThisLock = UNLOCKED\<rparr>"]
  by simp

text \<open>
  C10: release is idempotent on the state: releasing twice gives the state that releasing
  once gives, and releasing a lock that is already free leaves it as it is.
\<close>

theorem unlock_idempotent:
  "unlock (unlock l) = unlock l \<and> (ThisLock l = UNLOCKED \<longrightarrow> unlock l = l)"
  by (simp add: unlock_def store_def)

theorem unlock_idempotent_witness:
  "ThisLock AtomicLock_ctor = UNLOCKED
   \<and> unlock (unlock AtomicLock_ctor) = unlock AtomicLock_ctor
   \<and> unlock AtomicLock_ctor = AtomicLock_ctor"
  using unlock_idempotent [of AtomicLock_ctor]
  by (simp add: AtomicLock_ctor_def)

section \<open>The single attempt\<close>

text \<open>
  C2: on a lock whose state is FREE, \<open>try_lock\<close> returns true and leaves the state HELD.
  Step by step: the load reads \<open>UNLOCKED\<close> and goes on to the exchange, and the exchange,
  on a cell still \<open>UNLOCKED\<close>, writes \<open>LOCKED\<close> and returns true.
\<close>

theorem try_lock_free_succeeds:
  assumes "ThisLock l = UNLOCKED"
  shows "try_lock l = (True, l\<lparr>ThisLock := LOCKED\<rparr>)
     \<and> ThisLock (snd (try_lock l)) = LOCKED
     \<and> step TryLock_Load l = (Ev_load UNLOCKED, TryLock_CAS, l)
     \<and> step TryLock_CAS l = (Ev_cas True, TryLock_Return True, l\<lparr>ThisLock := LOCKED\<rparr>)"
  using assms
  by (simp add: try_lock_unlocked load_def compare_exchange_strong_def UNLOCKED_def)

theorem try_lock_free_succeeds_witness:
  "ThisLock AtomicLock_ctor = UNLOCKED
   \<and> try_lock AtomicLock_ctor = (True, \<lparr>ThisLock = LOCKED\<rparr>)
   \<and> ThisLock (snd (try_lock AtomicLock_ctor)) = LOCKED"
  using try_lock_free_succeeds [of AtomicLock_ctor]
  by (simp add: AtomicLock_ctor_def)

text \<open>
  C3: on a lock whose state is HELD, \<open>try_lock\<close> returns false, an ordinary boolean
  result, and leaves the state as it was. There is no retry: the call returns at its
  first access, the load, and the exchange is not attempted.
\<close>

theorem try_lock_held_fails:
  assumes "ThisLock l = LOCKED"
  shows "try_lock l = (False, l)
     \<and> step TryLock_Load l = (Ev_load LOCKED, TryLock_Return False, l)
     \<and> returned (fst (snd (step TryLock_Load l)))"
  using assms
  by (simp add: try_lock_locked load_def LOCKED_def)

theorem try_lock_held_fails_witness:
  "ThisLock \<lparr>ThisLock = LOCKED\<rparr> = LOCKED
   \<and> try_lock \<lparr>ThisLock = LOCKED\<rparr> = (False, \<lparr>ThisLock = LOCKED\<rparr>)
   \<and> step TryLock_Load \<lparr>ThisLock = LOCKED\<rparr>
       = (Ev_load LOCKED, TryLock_Return False, \<lparr>ThisLock = LOCKED\<rparr>)"
  using try_lock_held_fails [of "\<lparr>ThisLock = LOCKED\<rparr>"]
  by (simp add: LOCKED_def load_def)

text \<open>
  C8: \<open>try_lock\<close> never spins and never blocks. Its first step is the load, after which it
  has returned false or stands before the exchange; the exchange is its second and last
  step, whatever the cell holds by then. So in every system, whatever the other threads
  do before, between and after, a thread that has entered \<open>try_lock\<close> has returned after
  its own first step or after its own second.
\<close>

theorem try_lock_bounded:
  "fst (step TryLock_Load l1) = Ev_load (ThisLock l1)
   \<and> (fst (snd (step TryLock_Load l1)) = TryLock_Return False
      \<or> fst (snd (step TryLock_Load l1)) = TryLock_CAS)
   \<and> fst (step TryLock_CAS l2) = Ev_cas (ThisLock l2 = UNLOCKED)
   \<and> fst (snd (step TryLock_CAS l2)) = TryLock_Return (ThisLock l2 = UNLOCKED)
   \<and> returned (fst (snd (step (fst (snd (step TryLock_Load l1))) l2)))
   \<and> (pc_of c t = TryLock_Load \<and> t \<notin> set ts \<longrightarrow>
        (\<exists>b. pc_of (snd (sys_step t c)) t = TryLock_Return b)
        \<or> (\<exists>b. pc_of (exec (t # ts @ [t]) c) t = TryLock_Return b))"
proof -
  have a: "fst (step TryLock_Load l1) = Ev_load (ThisLock l1)
   \<and> (fst (snd (step TryLock_Load l1)) = TryLock_Return False
      \<or> fst (snd (step TryLock_Load l1)) = TryLock_CAS)"
    by (simp add: load_def)
  have b: "fst (step TryLock_CAS l2) = Ev_cas (ThisLock l2 = UNLOCKED)
   \<and> fst (snd (step TryLock_CAS l2)) = TryLock_Return (ThisLock l2 = UNLOCKED)"
    by (simp add: compare_exchange_strong_def)
  have d: "returned (fst (snd (step (fst (snd (step TryLock_Load l1))) l2)))"
    by (simp add: load_def compare_exchange_strong_def)
  from a b d try_lock_two_steps [of c t ts] show ?thesis by blast
qed

theorem try_lock_bounded_witness:
  "pc_of (exec [0] (race 0 1)) 0 = TryLock_Load \<and> (0::nat) \<notin> set [1, 1, 1]
   \<and> pc_of (exec (0 # [1, 1, 1] @ [0]) (exec [0] (race 0 1))) 0 = TryLock_Return False
   \<and> pc_of (exec (0 # [1, 1, 1] @ [0]) (exec [0] (race 0 1))) 1 = TryLock_Return True"
  using try_lock_bounded [of AtomicLock_ctor AtomicLock_ctor "exec [0] (race 0 1)" 0 "[1, 1, 1]"]
  by (simp add: eval_simps)

section \<open>Mutual exclusion\<close>

text \<open>
  C1: mutual exclusion. In every run of every system of threads, from every
  configuration, a stretch of the run with no release transition (no store over a held
  lock) has at most one acquire transition, by \<open>lock\<close> or by \<open>try_lock\<close>. And when two
  threads race \<open>try_lock\<close> on a fresh lock, under every schedule: if both calls have
  returned, one returned true and the other false; and both have returned as soon as each
  thread has been scheduled three times (the call, the load, the exchange).
\<close>

theorem mutual_exclusion:
  "(trace ts c = pre @ seg @ post \<and> releases seg = 0 \<longrightarrow> acquires seg \<le> 1)
   \<and> (t1 \<noteq> t2
       \<and> try_lock_result (exec ts' (race t1 t2)) t1 = Some b1
       \<and> try_lock_result (exec ts' (race t1 t2)) t2 = Some b2
      \<longrightarrow> b1 \<noteq> b2)
   \<and> (t1 \<noteq> t2 \<and> 3 \<le> count_list ts' t1 \<and> 3 \<le> count_list ts' t2
      \<longrightarrow> (\<exists>b. try_lock_result (exec ts' (race t1 t2)) t1 = Some b
              \<and> try_lock_result (exec ts' (race t1 t2)) t2 = Some (\<not> b)))"
proof -
  have excl: "b \<noteq> b'"
    if "t1 \<noteq> t2" "try_lock_result (exec ts' (race t1 t2)) t1 = Some b"
      "try_lock_result (exec ts' (race t1 t2)) t2 = Some b'" for b b'
  proof -
    from that(1) have "race_inv t1 t2 (exec ts' (race t1 t2))"
      by (simp add: race_inv_exec race_inv_init)
    with that(2,3) show ?thesis by (rule race_exactly_one [rotated])
  qed
  have one: "acquires seg \<le> 1" if "trace ts c = pre @ seg @ post" "releases seg = 0"
  proof -
    from that(1) obtain us d where "seg = trace us d" using trace_segment by blast
    with that(2) at_most_one_acquire show ?thesis by simp
  qed
  have fin: "\<exists>b. try_lock_result (exec ts' (race t1 t2)) t1 = Some b
              \<and> try_lock_result (exec ts' (race t1 t2)) t2 = Some (\<not> b)"
    if ne: "t1 \<noteq> t2" and n1: "3 \<le> count_list ts' t1" and n2: "3 \<le> count_list ts' t2"
  proof -
    from race_finished(1) [OF ne n1] obtain b
      where r1: "try_lock_result (exec ts' (race t1 t2)) t1 = Some b" by blast
    from ne have "t2 \<noteq> t1" by simp
    from race_finished(2) [OF this n2] obtain b'
      where r2: "try_lock_result (exec ts' (race t1 t2)) t2 = Some b'" by blast
    from excl [OF ne r1 r2] have "b' = (\<not> b)" by blast
    with r1 r2 show ?thesis by blast
  qed
  from excl one fin show ?thesis by blast
qed

theorem mutual_exclusion_witness:
  "trace [0, 1, 0, 1, 0, 1] (race 0 1) = [] @ trace [0, 1, 0, 1, 0, 1] (race 0 1) @ []
   \<and> releases (trace [0, 1, 0, 1, 0, 1] (race 0 1)) = 0
   \<and> acquires (trace [0, 1, 0, 1, 0, 1] (race 0 1)) \<le> 1
   \<and> (0::nat) \<noteq> 1
   \<and> 3 \<le> count_list [0, 1, 0, 1, 0, 1] (0::nat)
   \<and> 3 \<le> count_list [0, 1, 0, 1, 0, 1] (1::nat)
   \<and> try_lock_result (exec [0, 1, 0, 1, 0, 1] (race 0 1)) 0 = Some True
   \<and> try_lock_result (exec [0, 1, 0, 1, 0, 1] (race 0 1)) 1 = Some False"
  using mutual_exclusion [of "[0, 1, 0, 1, 0, 1]" "race 0 1" "[]"
      "trace [0, 1, 0, 1, 0, 1] (race 0 1)" "[]" 0 1 "[0, 1, 0, 1, 0, 1]" True False]
  by (simp add: eval_simps try_lock_result_def releases_def acquires_def is_release_def
      is_acquire_def)

section \<open>Blocking acquire, waiting and the round trip\<close>

text \<open>
  C4: \<open>lock\<close> returns no value (the model returns the cell alone) and returns only once
  the caller holds the lock. Called with no other thread running, it returns exactly when
  the lock was free, with the state HELD, and on a held lock it never returns. Among other
  threads: the step by which a thread arrives at the return of \<open>lock\<close> is its own
  successful exchange, on a cell that was \<open>UNLOCKED\<close> and is \<open>LOCKED\<close> after the step.
\<close>

theorem lock_returns_holding:
  "(lock l = Some l' \<longrightarrow> ThisLock l' = LOCKED \<and> l' = l\<lparr>ThisLock := LOCKED\<rparr>)
   \<and> (ThisLock l = UNLOCKED \<longrightarrow> lock l = Some (l\<lparr>ThisLock := LOCKED\<rparr>))
   \<and> (ThisLock l = LOCKED \<longrightarrow> lock l = None)
   \<and> (pc_of (snd (sys_step t c)) t = Lock_Return \<and> pc_of c t \<noteq> Lock_Return \<longrightarrow>
        pc_of c t = Lock_CAS \<and> fst (sys_step t c) = (t, Ev_cas True)
        \<and> ThisLock (cell c) = UNLOCKED \<and> ThisLock (cell (snd (sys_step t c))) = LOCKED)"
proof (intro conjI impI)
  assume "lock l = Some l'"
  from lock_returns_from_unlocked [OF this]
  show "ThisLock l' = LOCKED" and "l' = l\<lparr>ThisLock := LOCKED\<rparr>" by simp_all
next
  assume "ThisLock l = UNLOCKED"
  then show "lock l = Some (l\<lparr>ThisLock := LOCKED\<rparr>)" by (rule lock_unlocked)
next
  assume "ThisLock l = LOCKED"
  then show "lock l = None" by (rule lock_locked)
next
  assume a: "pc_of (snd (sys_step t c)) t = Lock_Return \<and> pc_of c t \<noteq> Lock_Return"
  with sys_step_into_Lock_Return [of t c]
  show "pc_of c t = Lock_CAS" "fst (sys_step t c) = (t, Ev_cas True)"
    "ThisLock (cell c) = UNLOCKED" "ThisLock (cell (snd (sys_step t c))) = LOCKED"
    by simp_all
qed

theorem lock_returns_holding_witness:
  "lock AtomicLock_ctor = Some \<lparr>ThisLock = LOCKED\<rparr>
   \<and> ThisLock AtomicLock_ctor = UNLOCKED
   \<and> pc_of (snd (sys_step 0 (exec [0, 0] (solo [Call_lock])))) 0 = Lock_Return
   \<and> pc_of (exec [0, 0] (solo [Call_lock])) 0 = Lock_CAS
   \<and> fst (sys_step 0 (exec [0, 0] (solo [Call_lock]))) = (0, Ev_cas True)
   \<and> ThisLock (cell (snd (sys_step 0 (exec [0, 0] (solo [Call_lock]))))) = LOCKED"
  using lock_returns_holding [of AtomicLock_ctor "\<lparr>ThisLock = LOCKED\<rparr>" 0
      "exec [0, 0] (solo [Call_lock])"]
  by (simp add: eval_simps)

text \<open>
  C7: \<open>wait\<close> never mutates the lock. Each of its steps leaves the cell as it found it,
  and is a load or a yield, never an exchange or a store; called alone, it returns the
  cell it was given. What the cell holds after \<open>wait\<close> has returned is up to the other
  threads, and the caller has no exclusivity: in the run below thread 0 has returned from
  \<open>wait\<close> and the lock is held, by thread 1.
\<close>

theorem wait_reads_only:
  "snd (snd (step Wait_Load l)) = l \<and> snd (snd (step Wait_Yield l)) = l
   \<and> (wait l = Some l' \<longrightarrow> l' = l)
   \<and> (pc_of c t = Wait_Load \<or> pc_of c t = Wait_Yield \<longrightarrow>
        cell (snd (sys_step t c)) = cell c
        \<and> (snd (fst (sys_step t c)) = Ev_load (ThisLock (cell c))
           \<or> snd (fst (sys_step t c)) = Ev_yield)
        \<and> (pc_of (snd (sys_step t c)) t = Wait_Load
           \<or> pc_of (snd (sys_step t c)) t = Wait_Yield
           \<or> pc_of (snd (sys_step t c)) t = Wait_Return))
   \<and> pc_of (exec [0, 0, 1, 1, 1] (init_config ((\<lambda>_. [])(0 := [Call_wait], 1 := [Call_lock])))) 0
       = Wait_Return
   \<and> ThisLock (cell (exec [0, 0, 1, 1, 1]
        (init_config ((\<lambda>_. [])(0 := [Call_wait], 1 := [Call_lock]))))) = LOCKED"
proof -
  have a: "snd (snd (step Wait_Load l)) = l \<and> snd (snd (step Wait_Yield l)) = l"
    by (simp add: yield_def)
  have b: "wait l = Some l' \<longrightarrow> l' = l"
    using wait_returns_same by blast
  have d: "pc_of (exec [0, 0, 1, 1, 1] (init_config ((\<lambda>_. [])(0 := [Call_wait], 1 := [Call_lock])))) 0
       = Wait_Return
   \<and> ThisLock (cell (exec [0, 0, 1, 1, 1]
        (init_config ((\<lambda>_. [])(0 := [Call_wait], 1 := [Call_lock]))))) = LOCKED"
    by (simp add: eval_simps)
  from a b d wait_sys_step [of c t] show ?thesis by blast
qed

theorem wait_reads_only_witness:
  "wait AtomicLock_ctor = Some AtomicLock_ctor
   \<and> pc_of (exec [0] (solo [Call_wait])) 0 = Wait_Load
   \<and> cell (snd (sys_step 0 (exec [0] (solo [Call_wait])))) = cell (exec [0] (solo [Call_wait]))
   \<and> pc_of (snd (sys_step 0 (exec [0] (solo [Call_wait])))) 0 = Wait_Return"
  using wait_reads_only [of AtomicLock_ctor AtomicLock_ctor "exec [0] (solo [Call_wait])" 0]
    wait_unlocked [of AtomicLock_ctor]
  by (simp add: eval_simps)

text \<open>
  C6: the round trip. From construction, \<open>lock\<close>, \<open>unlock\<close>, \<open>lock\<close>, \<open>unlock\<close> by one
  caller all return, and the state is \<open>UNLOCKED\<close> after each \<open>unlock\<close>; the same holds for
  any number of rounds, which end in the state of a fresh lock. As a thread's run: ten
  steps take the four calls to their end, with two acquires and two releases.
\<close>

theorem lock_unlock_roundtrip:
  "lock AtomicLock_ctor = Some \<lparr>ThisLock = LOCKED\<rparr>
   \<and> unlock \<lparr>ThisLock = LOCKED\<rparr> = \<lparr>ThisLock = UNLOCKED\<rparr>
   \<and> lock \<lparr>ThisLock = UNLOCKED\<rparr> = Some \<lparr>ThisLock = LOCKED\<rparr>
   \<and> Option.bind (lock AtomicLock_ctor) (\<lambda>l1. Option.bind (lock (unlock l1)) (\<lambda>l2.
        Some (ThisLock (unlock l1), ThisLock (unlock l2)))) = Some (UNLOCKED, UNLOCKED)
   \<and> lock_unlock n AtomicLock_ctor = Some AtomicLock_ctor
   \<and> ThisLock AtomicLock_ctor = UNLOCKED
   \<and> threads (exec [0, 0, 0, 0, 0, 0, 0, 0, 0, 0]
        (solo [Call_lock, Call_unlock, Call_lock, Call_unlock])) 0 = (Unlock_Return, [])
   \<and> cell (exec [0, 0, 0, 0, 0, 0, 0, 0, 0, 0]
        (solo [Call_lock, Call_unlock, Call_lock, Call_unlock])) = AtomicLock_ctor
   \<and> map snd (trace [0, 0, 0, 0, 0, 0, 0, 0, 0, 0]
        (solo [Call_lock, Call_unlock, Call_lock, Call_unlock]))
      = [Ev_call Call_lock, Ev_load UNLOCKED, Ev_cas True, Ev_call Call_unlock, Ev_store LOCKED,
         Ev_call Call_lock, Ev_load UNLOCKED, Ev_cas True, Ev_call Call_unlock, Ev_store LOCKED]"
proof -
  have a: "lock \<lparr>ThisLock = UNLOCKED\<rparr> = Some \<lparr>ThisLock = LOCKED\<rparr>"
    using lock_unlocked [of "\<lparr>ThisLock = UNLOCKED\<rparr>"] by simp
  have b: "unlock \<lparr>ThisLock = LOCKED\<rparr> = \<lparr>ThisLock = UNLOCKED\<rparr>"
    by (simp add: unlock_def store_def)
  have seq: "lock AtomicLock_ctor = Some \<lparr>ThisLock = LOCKED\<rparr>
   \<and> unlock \<lparr>ThisLock = LOCKED\<rparr> = \<lparr>ThisLock = UNLOCKED\<rparr>
   \<and> lock \<lparr>ThisLock = UNLOCKED\<rparr> = Some \<lparr>ThisLock = LOCKED\<rparr>
   \<and> Option.bind (lock AtomicLock_ctor) (\<lambda>l1. Option.bind (lock (unlock l1)) (\<lambda>l2.
        Some (ThisLock (unlock l1), ThisLock (unlock l2)))) = Some (UNLOCKED, UNLOCKED)
   \<and> lock_unlock n AtomicLock_ctor = Some AtomicLock_ctor
   \<and> ThisLock AtomicLock_ctor = UNLOCKED"
    using a b by (simp add: lock_unlock_ctor) (simp add: AtomicLock_ctor_def)
  have run: "threads (exec [0, 0, 0, 0, 0, 0, 0, 0, 0, 0]
        (solo [Call_lock, Call_unlock, Call_lock, Call_unlock])) 0 = (Unlock_Return, [])
   \<and> cell (exec [0, 0, 0, 0, 0, 0, 0, 0, 0, 0]
        (solo [Call_lock, Call_unlock, Call_lock, Call_unlock])) = AtomicLock_ctor"
    by (simp add: eval_simps)
  have tr: "map snd (trace [0, 0, 0, 0, 0, 0, 0, 0, 0, 0]
        (solo [Call_lock, Call_unlock, Call_lock, Call_unlock]))
      = [Ev_call Call_lock, Ev_load UNLOCKED, Ev_cas True, Ev_call Call_unlock, Ev_store LOCKED,
         Ev_call Call_lock, Ev_load UNLOCKED, Ev_cas True, Ev_call Call_unlock, Ev_store LOCKED]"
    by (simp add: eval_simps)
  from seq run tr show ?thesis by blast
qed

theorem lock_unlock_roundtrip_witness:
  "lock_unlock 2 AtomicLock_ctor = Some \<lparr>ThisLock = UNLOCKED\<rparr>"
  using lock_unlock_roundtrip [of 2] by (simp add: AtomicLock_ctor_def)

end
